theory Spec2Isabelle
  imports Main "HOL-Library.AList"
begin

section \<open>Quidel update (acquisition/quidel/quidel_update.py)\<close>

text \<open>
  The script loads the aggregated Quidel measurements, derives three epiweek-indexed
  series per location and merges each of them into the table \<open>quidel\<close> with one
  \<open>INSERT ... ON DUPLICATE KEY UPDATE\<close> statement per (location, epiweek) pair.
  The embedding below follows the script function by function. The database, the console
  and the collaborator object are explicit: a run takes a world (the table and the trace of
  the calls made so far) and returns the world after it.
\<close>

subsection \<open>Data model\<close>

type_synonym location = string
type_synonym epiweek = int

text \<open>
  A Python dict is an association list read with \<open>map_of\<close> (the first pair of a key is
  its entry) and written with \<open>AList.update\<close> (an existing key keeps its place, a new key
  goes to the end).
\<close>

type_synonym ('k, 'a) dict = "('k \<times> 'a) list"

definition dict_keys :: "('k, 'a) dict \<Rightarrow> 'k list" where
  "dict_keys d = remdups (map fst d)"

text \<open>
  \<open>sorted(d.keys())\<close> followed by the read \<open>d[k]\<close> of each key: the entries of the dict in
  ascending key order.
\<close>

definition sorted_items :: "('k::linorder, 'a) dict \<Rightarrow> ('k \<times> 'a) list" where
  "sorted_items d =
     List.map_filter (\<lambda>k. map_option (Pair k) (map_of d k)) (sort (dict_keys d))"

text \<open>
  The table \<open>quidel\<close>. The auto-increment \<open>id\<close> is left out: no statement of the script
  reads it. A metric column holds \<open>None\<close> as long as no statement has written it (the
  column is at the default the table declares).
\<close>

record 'v row =
  r_location :: location
  r_epiweek :: epiweek
  r_value :: "'v option"
  r_num_rows :: "'v option"
  r_num_devices :: "'v option"

datatype column = Col_value | Col_num_rows | Col_num_devices

datatype 'v statement =
    Select_window
  | Select_count
  | Upsert column location epiweek 'v

text \<open>
  What a run does to the outside, in the order it does it. The four \<open>Print\<close> events are
  the four \<open>print\<close> calls of the script, with the arguments of their format strings:
  \<open>Print_no_update\<close> is 'Data not updated, nothing needs change.',
  \<open>Print_checking ew0 ew1\<close> is 'Checking epiweeks between %d and %d...',
  \<open>Print_missing location num_missing n\<close> is ' [%s] missing %d/%d value(s)' and
  \<open>Print_inserted d total_rows\<close> is 'Inserted %d/%d row(s)'.
\<close>

datatype 'v event =
    QuidelData_init bool
  | Load_csv
  | Db_connect
  | Db_execute "'v statement"
  | Cursor_close
  | Db_commit
  | Db_close
  | Print_no_update
  | Print_checking epiweek epiweek
  | Print_missing location nat nat
  | Print_inserted int nat

record 'v world =
  table :: "'v row list"
  trace :: "'v event list"

definition emit :: "'v event \<Rightarrow> 'v world \<Rightarrow> 'v world" where
  "emit e w = w\<lparr>trace := trace w @ [e]\<rparr>"

text \<open>The events a run added to the trace: those of \<open>w'\<close> after those of \<open>w\<close>.\<close>

definition emitted :: "'v world \<Rightarrow> 'v world \<Rightarrow> 'v event list" where
  "emitted w w' = drop (length (trace w)) (trace w')"

fun upserts_of :: "'v event list \<Rightarrow> (column \<times> location \<times> epiweek \<times> 'v) list" where
  "upserts_of [] = []"
| "upserts_of (Db_execute (Upsert c loc ew v) # es) = (c, loc, ew, v) # upserts_of es"
| "upserts_of (e # es) = upserts_of es"

subsection \<open>Collaborators\<close>

text \<open>
  The object \<open>quidel.QuidelData(DATAPATH, load_email)\<close>: its attribute \<open>need_update\<close>
  and its two methods. The raw data and the measurement tuples are of types the script
  never looks into.
\<close>

record ('raw, 'm) quidel_data =
  need_update :: bool
  load_csv :: 'raw
  prepare_measurements :: "'raw \<Rightarrow> bool \<Rightarrow> int \<Rightarrow> (location, (epiweek, 'm) dict) dict"

text \<open>
  What the script imports and does not define: the constructor of the collaborator object,
  the field of a measurement tuple at an index (\<open>tuple_field\<close>), the two functions of
  \<open>delphi.utils.epiweek\<close> (\<open>check_epiweek\<close> is the condition under which the call returns
  instead of raising), the value of \<open>yearweek(now(), 6)\<close> during the run, the list
  \<open>Locations.hhs_list\<close>, and what \<open>str.lower\<close> of the Python runtime gives on text that
  is not all ASCII (\<open>unicode_lower\<close>, the Unicode case tables).
\<close>

record ('raw, 'm, 'v) env =
  QuidelData :: "bool \<Rightarrow> ('raw, 'm) quidel_data"
  tuple_field :: "nat \<Rightarrow> 'm \<Rightarrow> 'v"
  add_epiweeks :: "epiweek \<Rightarrow> int \<Rightarrow> epiweek"
  check_epiweek :: "epiweek \<Rightarrow> bool"
  yearweek_now :: epiweek
  LOCATIONS :: "location list"
  unicode_lower :: "string \<Rightarrow> string"

definition in_bounds :: "epiweek option \<Rightarrow> epiweek option \<Rightarrow> epiweek \<Rightarrow> bool" where
  "in_bounds startweek endweek t =
     ((case startweek of None \<Rightarrow> True | Some s \<Rightarrow> s \<le> t) \<and>
      (case endweek of None \<Rightarrow> True | Some e \<Rightarrow> t \<le> e))"

text \<open>
  Modelled from the spec: \<open>quidel.measurement_to_ts\<close> (quidel.py is not among the sources).
  Given the measurement mapping and a field index it gives, for every location of the
  mapping, the field of every epiweek inside the inclusive bound
  \<open>[startweek, endweek]\<close>, a bound that is \<open>None\<close> being open. Locations are neither
  added nor dropped and no epiweek is filled in.
\<close>

definition measurement_to_ts ::
  "(nat \<Rightarrow> 'm \<Rightarrow> 'v) \<Rightarrow> (location, (epiweek, 'm) dict) dict \<Rightarrow> nat \<Rightarrow>
   epiweek option \<Rightarrow> epiweek option \<Rightarrow> (location, (epiweek, 'v) dict) dict" where
  "measurement_to_ts field m index startweek endweek =
     map (\<lambda>(r, d). (r, map (\<lambda>(t, x). (t, field index x))
                          (filter (\<lambda>(t, x). in_bounds startweek endweek t) d))) m"

subsection \<open>The table and its statements\<close>

definition row_key :: "'v row \<Rightarrow> location \<times> epiweek" where
  "row_key r = (r_location r, r_epiweek r)"

fun get_col :: "column \<Rightarrow> 'v row \<Rightarrow> 'v option" where
  "get_col Col_value r = r_value r"
| "get_col Col_num_rows r = r_num_rows r"
| "get_col Col_num_devices r = r_num_devices r"

fun set_col :: "column \<Rightarrow> 'v \<Rightarrow> 'v row \<Rightarrow> 'v row" where
  "set_col Col_value v r = r\<lparr>r_value := Some v\<rparr>"
| "set_col Col_num_rows v r = r\<lparr>r_num_rows := Some v\<rparr>"
| "set_col Col_num_devices v r = r\<lparr>r_num_devices := Some v\<rparr>"

definition new_row :: "column \<Rightarrow> location \<Rightarrow> epiweek \<Rightarrow> 'v \<Rightarrow> 'v row" where
  "new_row c loc ew v =
     set_col c v \<lparr>r_location = loc, r_epiweek = ew,
                  r_value = None, r_num_rows = None, r_num_devices = None\<rparr>"

text \<open>
  Modelled from the spec: the unique key of the table \<open>quidel\<close> (its declaration is not
  among the sources) is the pair (location, epiweek). With it the statement
  \<open>INSERT INTO quidel (location, epiweek, c) VALUES (loc, ew, v) ON DUPLICATE KEY UPDATE
  c = v\<close> sets column \<open>c\<close> of the rows that have the key, and adds a row with only \<open>c\<close>
  written when no row has it.
\<close>

definition upsert :: "column \<Rightarrow> location \<Rightarrow> epiweek \<Rightarrow> 'v \<Rightarrow> 'v row list \<Rightarrow> 'v row list" where
  "upsert c loc ew v tbl =
     (if (loc, ew) \<in> set (map row_key tbl)
      then map (\<lambda>r. if row_key r = (loc, ew) then set_col c v r else r) tbl
      else tbl @ [new_row c loc ew v])"

definition execute_upsert :: "column \<Rightarrow> location \<Rightarrow> epiweek \<Rightarrow> 'v \<Rightarrow> 'v world \<Rightarrow> 'v world" where
  "execute_upsert c loc ew v w =
     \<lparr>table = upsert c loc ew v (table w),
      trace = trace w @ [Db_execute (Upsert c loc ew v)]\<rparr>"

text \<open>\<open>SELECT max(epiweek)\<close>: NULL on the empty table.\<close>

definition max_epiweek :: "'v row list \<Rightarrow> epiweek option" where
  "max_epiweek tbl = (if tbl = [] then None else Some (Max (set (map r_epiweek tbl))))"

text \<open>\<open>get_num_rows\<close>, lines 84 to 88: \<open>SELECT count(1) FROM quidel\<close>.\<close>

definition get_num_rows :: "'v world \<Rightarrow> nat \<times> 'v world" where
  "get_num_rows w = (length (table w), emit (Db_execute Select_count) w)"

subsection \<open>\<open>update_quid_db\<close>, lines 90 to 150\<close>

text \<open>
  Lines 92 to 96: the window \<open>(ew0, ew1)\<close> from the row the window query returns (the
  maximum epiweek of the table and the current week) and the two overrides.
\<close>

definition resolve_window ::
  "('raw, 'm, 'v) env \<Rightarrow> epiweek option \<Rightarrow> epiweek option \<Rightarrow> 'v row list \<Rightarrow> epiweek \<times> epiweek" where
  "resolve_window env first last' tbl =
     (let ew0 = (case max_epiweek tbl of None \<Rightarrow> 200401 | Some m \<Rightarrow> add_epiweeks env m (- 4));
          ew1 = yearweek_now env;
          ew0 = (case first of None \<Rightarrow> ew0 | Some f \<Rightarrow> f);
          ew1 = (case last' of None \<Rightarrow> ew1 | Some l \<Rightarrow> l)
      in (ew0, ew1))"

text \<open>Lines 104 to 129: the statement for \<open>update_field\<close>; any other name keeps the default.\<close>

definition sql_for :: "string \<Rightarrow> column" where
  "sql_for update_field =
     (if update_field = ''num_rows'' then Col_num_rows
      else if update_field = ''num_devices'' then Col_num_devices
      else Col_value)"

text \<open>Lines 138 to 144: the loop over the epiweeks of one location.\<close>

fun ew_loop ::
  "column \<Rightarrow> location \<Rightarrow> (epiweek \<times> 'v::zero) list \<Rightarrow> 'v world \<times> nat \<times> nat \<Rightarrow>
   'v world \<times> nat \<times> nat" where
  "ew_loop sql loc [] s = s"
| "ew_loop sql loc ((ew, v) # ews) (w, total_rows, num_missing) =
     ew_loop sql loc ews
       (execute_upsert sql loc ew v w, total_rows + 1,
        (if v = 0 then num_missing + 1 else num_missing))"

text \<open>Lines 133 to 146: the loop over the requested locations.\<close>

fun loc_loop ::
  "column \<Rightarrow> (location, (epiweek, 'v::zero) dict) dict \<Rightarrow> location list \<Rightarrow> 'v world \<times> nat \<Rightarrow>
   'v world \<times> nat" where
  "loc_loop sql qd_ts [] s = s"
| "loc_loop sql qd_ts (loc # locations) (w, total_rows) =
     (case map_of qd_ts loc of
        None \<Rightarrow> loc_loop sql qd_ts locations (w, total_rows)
      | Some d \<Rightarrow>
          (let ews = sorted_items d;
               (w1, total_rows1, num_missing) = ew_loop sql loc ews (w, total_rows, 0);
               w2 = (if num_missing > 0
                     then emit (Print_missing loc num_missing (length ews)) w1 else w1)
           in loc_loop sql qd_ts locations (w2, total_rows1)))"

definition update_quid_db ::
  "('raw, 'm, 'v::zero) env \<Rightarrow> location list \<Rightarrow> epiweek option \<Rightarrow> epiweek option \<Rightarrow>
   (location, (epiweek, 'v) dict) dict \<Rightarrow> string \<Rightarrow> 'v world \<Rightarrow> 'v world" where
  "update_quid_db env locations first last' qd_ts update_field w =
     (let w1 = emit (Db_execute Select_window) w;
          (ew0, ew1) = resolve_window env first last' (table w1);
          w2 = emit (Print_checking ew0 ew1) w1;
          (rows_before, w3) = get_num_rows w2;
          sql = sql_for update_field;
          (w4, total_rows) = loc_loop sql qd_ts locations (w3, 0);
          (rows_after, w5) = get_num_rows w4
      in emit (Print_inserted (int rows_after - int rows_before) total_rows) w5)"

subsection \<open>\<open>update\<close>, lines 54 to 160\<close>

text \<open>Lines 68 to 70: the state measurements are copied over the regional ones.\<close>

fun copy_atoms :: "'k list \<Rightarrow> ('k, 'a) dict \<Rightarrow> ('k, 'a) dict \<Rightarrow> ('k, 'a) dict" where
  "copy_atoms [] qd_m_atoms qd_measurements = qd_measurements"
| "copy_atoms (atom # atoms) qd_m_atoms qd_measurements =
     copy_atoms atoms qd_m_atoms
       (case map_of qd_m_atoms atom of
          None \<Rightarrow> qd_measurements
        | Some m \<Rightarrow> AList.update atom m qd_measurements)"

definition update ::
  "('raw, 'm, 'v::zero) env \<Rightarrow> location list \<Rightarrow> epiweek option \<Rightarrow> epiweek option \<Rightarrow>
   bool \<Rightarrow> bool \<Rightarrow> 'v world \<Rightarrow> 'v world" where
  "update env locations first last' force_update load_email w =
     (let qd = QuidelData env load_email;
          w1 = emit (QuidelData_init load_email) w
      in if \<not> need_update qd \<and> \<not> force_update then emit Print_no_update w1
         else
          (let qd_data = load_csv qd;
               w2 = emit Load_csv w1;
               start_weekday = 4;
               qd_measurements = prepare_measurements qd qd_data True start_weekday;
               qd_m_atoms = prepare_measurements qd qd_data False start_weekday;
               qd_measurements = copy_atoms (dict_keys qd_m_atoms) qd_m_atoms qd_measurements;
               qd_ts_values = measurement_to_ts (tuple_field env) qd_measurements 7 first last';
               qd_ts_numrows = measurement_to_ts (tuple_field env) qd_measurements 3 first last';
               qd_ts_numdevices = measurement_to_ts (tuple_field env) qd_measurements 8 first last';
               w3 = emit Db_connect w2;
               w4 = update_quid_db env locations first last' qd_ts_values ''value'' w3;
               w5 = update_quid_db env locations first last' qd_ts_numrows ''num_rows'' w4;
               w6 = update_quid_db env locations first last' qd_ts_numdevices ''num_devices'' w5
           in emit Db_close (emit Db_commit (emit Cursor_close w6))))"

subsection \<open>\<open>main\<close>, lines 163 to 190\<close>

text \<open>The parsed command line: \<open>--location\<close>, \<open>--first\<close>, \<open>--last\<close> default to \<open>None\<close>.\<close>

record args =
  arg_location :: "string option"
  arg_first :: "epiweek option"
  arg_last :: "epiweek option"
  arg_force_update :: bool
  arg_skip_email :: bool

text \<open>
  The exceptions \<open>main\<close> can end with: the one \<open>flu.check_epiweek\<close> raises on an epiweek it
  refuses, the \<open>Exception\<close> of line 181 with its message, and the \<open>AttributeError\<close> of
  \<open>None.lower()\<close>.
\<close>

datatype error = Invalid_epiweek epiweek | Exception string | AttributeError

text \<open>
  \<open>str.lower\<close>. A string is the UTF-8 bytes of the Python \<open>str\<close>, so it is all ASCII
  exactly when every byte is below 128. On such text \<open>str.lower\<close> changes the letters A to
  Z and nothing else; on any other text it follows the Unicode tables of the runtime, which
  are the parameter \<open>unicode_lower\<close>.
\<close>

definition lower_char :: "char \<Rightarrow> char" where
  "lower_char c =
     (let n = (of_char c :: nat) in if 65 \<le> n \<and> n \<le> 90 then char_of (n + 32) else c)"

definition is_ascii :: "string \<Rightarrow> bool" where
  "is_ascii s = list_all (\<lambda>c. (of_char c :: nat) < 128) s"

definition lower :: "('raw, 'm, 'v) env \<Rightarrow> string \<Rightarrow> string" where
  "lower env s = (if is_ascii s then map lower_char s else unicode_lower env s)"

text \<open>
  \<open>str.split(sep)\<close> for a separator of one ASCII character: no byte of a character beyond
  ASCII equals it, so splitting the bytes splits the text.
\<close>

fun split :: "char \<Rightarrow> string \<Rightarrow> string list" where
  "split sep [] = [[]]"
| "split sep (c # cs) =
     (if c = sep then [] # split sep cs
      else (case split sep cs of [] \<Rightarrow> [[c]] | p # ps \<Rightarrow> (c # p) # ps))"

definition main ::
  "('raw, 'm, 'v::zero) env \<Rightarrow> args \<Rightarrow> 'v world \<Rightarrow> error option \<times> 'v world" where
  "main env args w =
     (let first = arg_first args; last' = arg_last args;
          force_update = arg_force_update args; skip_email = arg_skip_email args;
          load_email = \<not> skip_email
      in case (case first of None \<Rightarrow> None
               | Some f \<Rightarrow> if check_epiweek env f then None else Some (Invalid_epiweek f)) of
           Some e \<Rightarrow> (Some e, w)
         | None \<Rightarrow>
          (case (case last' of None \<Rightarrow> None
                 | Some l \<Rightarrow> if check_epiweek env l then None else Some (Invalid_epiweek l)) of
             Some e \<Rightarrow> (Some e, w)
           | None \<Rightarrow>
              if (case (first, last') of (Some f, Some l) \<Rightarrow> f > l | _ \<Rightarrow> False)
              then (Some (Exception ''epiweeks in the wrong order''), w)
              else
               (case arg_location args of
                  None \<Rightarrow> (Some AttributeError, w)
                | Some location \<Rightarrow>
                   (let locations = (if lower env location = ''all'' then LOCATIONS env
                                     else split CHR '','' (lower env location))
                    in (None, update env locations first last' force_update load_email w)))))"

subsection \<open>The triples of a pass\<close>

text \<open>
  The (location, epiweek, value) triples that the two loops of \<open>update_quid_db\<close> visit, in
  the order they visit them, and the table after the statements for a list of triples.
  \<open>loc_loop_effect\<close> below proves that the loops issue exactly these statements.
\<close>

definition loc_triples ::
  "(location, (epiweek, 'v) dict) dict \<Rightarrow> location \<Rightarrow> (location \<times> epiweek \<times> 'v) list" where
  "loc_triples qd_ts loc =
     (case map_of qd_ts loc of
        None \<Rightarrow> []
      | Some d \<Rightarrow> map (\<lambda>(ew, v). (loc, ew, v)) (sorted_items d))"

definition pass_triples ::
  "(location, (epiweek, 'v) dict) dict \<Rightarrow> location list \<Rightarrow> (location \<times> epiweek \<times> 'v) list" where
  "pass_triples qd_ts locations = concat (map (loc_triples qd_ts) locations)"

definition apply_triples ::
  "column \<Rightarrow> (location \<times> epiweek \<times> 'v) list \<Rightarrow> 'v row list \<Rightarrow> 'v row list" where
  "apply_triples c ts tbl = fold (\<lambda>(loc, ew, v). upsert c loc ew v) ts tbl"

text \<open>The key a triple is written under.\<close>

definition triple_key :: "location \<times> epiweek \<times> 'v \<Rightarrow> location \<times> epiweek" where
  "triple_key t = (fst t, fst (snd t))"

text \<open>
  A list of statements of several columns applied in order, the condition that a statement
  has nothing left to change in a table, and the condition that two statements never ask
  for two values of one cell.
\<close>

definition apply_upserts ::
  "(column \<times> location \<times> epiweek \<times> 'v) list \<Rightarrow> 'v row list \<Rightarrow> 'v row list" where
  "apply_upserts us tbl = fold (\<lambda>(c, loc, ew, v). upsert c loc ew v) us tbl"

definition holds :: "'v row list \<Rightarrow> column \<times> location \<times> epiweek \<times> 'v \<Rightarrow> bool" where
  "holds tbl u =
     (case u of (c, loc, ew, v) \<Rightarrow>
        (loc, ew) \<in> set (map row_key tbl) \<and>
        (\<forall>r \<in> set tbl. row_key r = (loc, ew) \<longrightarrow> get_col c r = Some v))"

definition compatible ::
  "column \<times> location \<times> epiweek \<times> 'v \<Rightarrow> column \<times> location \<times> epiweek \<times> 'v \<Rightarrow> bool" where
  "compatible u u' = (fst u = fst u' \<and> fst (snd u) = fst (snd u') \<and>
                      fst (snd (snd u)) = fst (snd (snd u')) \<longrightarrow> u = u')"

text \<open>A row after some statements on column \<open>c\<close>: the same row, or the row with \<open>c\<close> set.\<close>

definition row_rel :: "column \<Rightarrow> 'v row \<Rightarrow> 'v row \<Rightarrow> bool" where
  "row_rel c r r' = (r' = r \<or> (\<exists>v. r' = set_col c v r))"

text \<open>
  The series \<open>update\<close> derives for a field index (lines 56 to 77), the index each column
  is derived from, and the statements of the three passes of a run, in order.
\<close>

definition run_series ::
  "('raw, 'm, 'v) env \<Rightarrow> epiweek option \<Rightarrow> epiweek option \<Rightarrow> bool \<Rightarrow> nat \<Rightarrow>
   (location, (epiweek, 'v) dict) dict" where
  "run_series env first last' load_email index =
     (let qd = QuidelData env load_email;
          qd_data = load_csv qd;
          qd_measurements = prepare_measurements qd qd_data True 4;
          qd_m_atoms = prepare_measurements qd qd_data False 4
      in measurement_to_ts (tuple_field env)
           (copy_atoms (dict_keys qd_m_atoms) qd_m_atoms qd_measurements) index first last')"

fun column_index :: "column \<Rightarrow> nat" where
  "column_index Col_value = 7"
| "column_index Col_num_rows = 3"
| "column_index Col_num_devices = 8"

definition run_upserts ::
  "('raw, 'm, 'v) env \<Rightarrow> location list \<Rightarrow> epiweek option \<Rightarrow> epiweek option \<Rightarrow> bool \<Rightarrow>
   (column \<times> location \<times> epiweek \<times> 'v) list" where
  "run_upserts env locations first last' load_email =
     concat (map (\<lambda>c. map (Pair c)
                    (pass_triples (run_series env first last' load_email (column_index c)) locations))
        [Col_value, Col_num_rows, Col_num_devices])"

text \<open>
  The overrides pass the sanity check of lines 176 to 181: \<open>check_epiweek\<close> accepts each
  one that is given, and \<open>first\<close> is not after \<open>last\<close> when both are given.
\<close>

definition overrides_accepted :: "('raw, 'm, 'v) env \<Rightarrow> args \<Rightarrow> bool" where
  "overrides_accepted env args =
     ((case arg_first args of None \<Rightarrow> True | Some f \<Rightarrow> check_epiweek env f) \<and>
      (case arg_last args of None \<Rightarrow> True | Some l \<Rightarrow> check_epiweek env l) \<and>
      (case (arg_first args, arg_last args) of (Some f, Some l) \<Rightarrow> f \<le> l | _ \<Rightarrow> True))"

subsection \<open>Example data\<close>

text \<open>
  A collaborator with two regions and one state, tuples of nine counters (index 3 the row
  count, 7 the ratio, 8 the device count), and stand-ins for the imported functions:
  \<open>add_epiweeks\<close> adds within one year, \<open>check_epiweek\<close> accepts weeks 1 to 53,
  \<open>unicode_lower\<close> leaves the text as it is (the examples are all ASCII and never reach it).
\<close>

definition example_measurements :: "bool \<Rightarrow> (location, (epiweek, int list) dict) dict" where
  "example_measurements use_hhs =
     (if use_hhs
      then [(''hhs1'', [(201701, [0, 0, 0, 10, 0, 0, 0, 2, 5]), (201750, [0, 0, 0, 4, 0, 0, 0, 0, 0])]),
            (''hhs3'', [(201750, [0, 0, 0, 6, 0, 0, 0, 3, 2])])]
      else [(''pa'', [(201749, [0, 0, 0, 8, 0, 0, 0, 4, 2])])])"

definition example_env :: "bool \<Rightarrow> (unit, int list, int) env" where
  "example_env need =
     \<lparr>QuidelData = (\<lambda>load_email.
        \<lparr>need_update = need, load_csv = (),
         prepare_measurements = (\<lambda>qd_data use_hhs start_weekday. example_measurements use_hhs)\<rparr>),
      tuple_field = (\<lambda>index t. t ! index),
      add_epiweeks = (\<lambda>ew n. ew + n),
      check_epiweek = (\<lambda>ew. 1 \<le> ew mod 100 \<and> ew mod 100 \<le> 53),
      yearweek_now = 201752,
      LOCATIONS = [''hhs1'', ''hhs2'', ''hhs3'', ''hhs4'', ''hhs5'',
                   ''hhs6'', ''hhs7'', ''hhs8'', ''hhs9'', ''hhs10''],
      unicode_lower = (\<lambda>s. s)\<rparr>"

definition example_args :: "string option \<Rightarrow> epiweek option \<Rightarrow> epiweek option \<Rightarrow> args" where
  "example_args location first last' =
     \<lparr>arg_location = location, arg_first = first, arg_last = last',
      arg_force_update = False, arg_skip_email = True\<rparr>"

definition empty_world :: "int world" where
  "empty_world = \<lparr>table = [], trace = []\<rparr>"

text \<open>
  A series of eight weeks for one region, listed out of order, one of them zero, and a
  table that already holds the first three weeks.
\<close>

definition example_series :: "(location, (epiweek, int) dict) dict" where
  "example_series =
     [(''hhs1'', [(201703, 3), (201701, 1), (201702, 2), (201704, 4),
                  (201705, 0), (201706, 6), (201707, 7), (201708, 8)])]"

definition example_table :: "int row list" where
  "example_table =
     [\<lparr>r_location = ''hhs1'', r_epiweek = 201701, r_value = Some 9, r_num_rows = None, r_num_devices = Some 1\<rparr>,
      \<lparr>r_location = ''hhs1'', r_epiweek = 201702, r_value = Some 9, r_num_rows = Some 5, r_num_devices = Some 1\<rparr>,
      \<lparr>r_location = ''hhs1'', r_epiweek = 201703, r_value = Some 9, r_num_rows = Some 5, r_num_devices = Some 1\<rparr>]"

text \<open>A table whose last week is 201750.\<close>

definition example_store :: "int row list" where
  "example_store =
     [\<lparr>r_location = ''hhs1'', r_epiweek = 201750, r_value = Some 1, r_num_rows = Some 3, r_num_devices = Some 3\<rparr>]"

section \<open>Basic facts\<close>

lemma table_emit [simp]: "table (emit e w) = table w"
  by (simp add: emit_def)

lemma trace_emit [simp]: "trace (emit e w) = trace w @ [e]"
  by (simp add: emit_def)

lemma table_execute_upsert [simp]:
  "table (execute_upsert c loc ew v w) = upsert c loc ew v (table w)"
  by (simp add: execute_upsert_def)

lemma trace_execute_upsert [simp]:
  "trace (execute_upsert c loc ew v w) = trace w @ [Db_execute (Upsert c loc ew v)]"
  by (simp add: execute_upsert_def)

lemma apply_triples_simps [simp]:
  "apply_triples c [] tbl = tbl"
  "apply_triples c ((loc, ew, v) # ts) tbl = apply_triples c ts (upsert c loc ew v tbl)"
  "apply_triples c (ts @ us) tbl = apply_triples c us (apply_triples c ts tbl)"
  by (simp_all add: apply_triples_def)

lemma upserts_of_append [simp]: "upserts_of (es @ fs) = upserts_of es @ upserts_of fs"
  by (induction es rule: upserts_of.induct) simp_all

lemma ew_loop_effect:
  "ew_loop sql loc ews (w, n, k) = (w', n', k') \<Longrightarrow>
     table w' = apply_triples sql (map (\<lambda>(ew, v). (loc, ew, v)) ews) (table w) \<and>
     trace w' = trace w @ map (\<lambda>(ew, v). Db_execute (Upsert sql loc ew v)) ews \<and>
     n' = n + length ews"
proof (induction ews arbitrary: w n k)
  case Nil
  then show ?case by simp
next
  case (Cons x ews)
  obtain ew v where x: "x = (ew, v)" by (cases x)
  from Cons.prems have
    "ew_loop sql loc ews (execute_upsert sql loc ew v w, n + 1, (if v = 0 then k + 1 else k)) = (w', n', k')"
    by (simp add: x)
  from Cons.IH[OF this] show ?case by (simp add: x)
qed

lemma loc_loop_effect:
  "loc_loop sql qd_ts locations (w, n) = (w', n') \<Longrightarrow>
     table w' = apply_triples sql (pass_triples qd_ts locations) (table w) \<and>
     (\<exists>es. trace w' = trace w @ es \<and>
           upserts_of es = map (\<lambda>(loc, ew, v). (sql, loc, ew, v)) (pass_triples qd_ts locations) \<and>
           (\<forall>e \<in> set es. (\<exists>c l ew v. e = Db_execute (Upsert c l ew v)) \<or> (\<exists>l a b. e = Print_missing l a b))) \<and>
     n' = n + length (pass_triples qd_ts locations)"
proof (induction locations arbitrary: w n)
  case Nil
  then show ?case by (simp add: pass_triples_def)
next
  case (Cons loc locations)
  show ?case
  proof (cases "map_of qd_ts loc")
    case None
    with Cons.prems have "loc_loop sql qd_ts locations (w, n) = (w', n')" by simp
    from Cons.IH[OF this] None show ?thesis
      by (simp add: pass_triples_def loc_triples_def)
  next
    case (Some d)
    obtain w1 n1 k1 where e: "ew_loop sql loc (sorted_items d) (w, n, 0) = (w1, n1, k1)"
      by (metis prod_cases3)
    define w2 where "w2 = (if k1 > 0 then emit (Print_missing loc k1 (length (sorted_items d))) w1 else w1)"
    from Cons.prems Some e have r: "loc_loop sql qd_ts locations (w2, n1) = (w', n')"
      by (simp add: w2_def Let_def)
    note E = ew_loop_effect[OF e]
    note R = Cons.IH[OF r]
    have t2: "table w2 = table w1" by (simp add: w2_def)
    from R obtain es where es: "trace w' = trace w2 @ es"
      "upserts_of es = map (\<lambda>(loc, ew, v). (sql, loc, ew, v)) (pass_triples qd_ts locations)"
      "\<forall>e \<in> set es. (\<exists>c l ew v. e = Db_execute (Upsert c l ew v)) \<or> (\<exists>l a b. e = Print_missing l a b)"
      by blast
    define fs where "fs = map (\<lambda>(ew, v). Db_execute (Upsert sql loc ew v)) (sorted_items d) @
       (if k1 > 0 then [Print_missing loc k1 (length (sorted_items d))] else [])"
    have tr2: "trace w2 = trace w @ fs" using E by (simp add: w2_def fs_def)
    have uf: "upserts_of fs = map (\<lambda>(loc, ew, v). (sql, loc, ew, v)) (loc_triples qd_ts loc)"
    proof -
      have "upserts_of (map (\<lambda>(ew, v). Db_execute (Upsert sql loc ew v)) xs) = map (\<lambda>(ew, v). (sql, loc, ew, v)) xs" for xs :: "(epiweek \<times> 'a) list"
        by (induction xs) auto
      then show ?thesis by (simp add: fs_def loc_triples_def Some comp_def case_prod_beta)
    qed
    have kf: "\<forall>e \<in> set fs. (\<exists>c l ew v. e = Db_execute (Upsert c l ew v)) \<or> (\<exists>l a b. e = Print_missing l a b)"
      by (auto simp: fs_def)
    have "table w' = apply_triples sql (pass_triples qd_ts (loc # locations)) (table w)"
      using R E t2 by (simp add: pass_triples_def loc_triples_def Some)
    moreover have "trace w' = trace w @ (fs @ es)" using es tr2 by simp
    moreover have "upserts_of (fs @ es) = map (\<lambda>(loc, ew, v). (sql, loc, ew, v)) (pass_triples qd_ts (loc # locations))"
      using uf es by (simp add: pass_triples_def)
    moreover have "\<forall>e \<in> set (fs @ es). (\<exists>c l ew v. e = Db_execute (Upsert c l ew v)) \<or> (\<exists>l a b. e = Print_missing l a b)"
      using kf es by auto
    moreover have "n' = n + length (pass_triples qd_ts (loc # locations))"
      using R E by (simp add: pass_triples_def loc_triples_def Some)
    ultimately show ?thesis by blast
  qed
qed

lemma emitted_append: "trace w' = trace w @ es \<Longrightarrow> emitted w w' = es"
  by (simp add: emitted_def)

lemma emitted_self [simp]: "emitted w w = []"
  by (simp add: emitted_def)

lemma set_map_filter_conv:
  "set (List.map_filter f xs) = {y. \<exists>x \<in> set xs. f x = Some y}"
  by (induction xs) (auto split: option.splits)

lemma set_sorted_items: "set (sorted_items d) = {(k, v). map_of d k = Some v}"
proof -
  have in_keys: "k \<in> fst ` set d" if "map_of d k = Some v" for k v
    using map_of_SomeD[OF that] by force
  show ?thesis
  proof (rule set_eqI)
    fix p :: "'a \<times> 'b"
    obtain k v where p: "p = (k, v)" by (cases p)
    have "p \<in> set (sorted_items d) \<longleftrightarrow> (k \<in> fst ` set d \<and> map_of d k = Some v)"
      by (auto simp: p sorted_items_def dict_keys_def set_map_filter_conv)
    also have "\<dots> \<longleftrightarrow> map_of d k = Some v"
      using in_keys by blast
    finally show "p \<in> set (sorted_items d) \<longleftrightarrow> p \<in> {(k, v). map_of d k = Some v}"
      by (simp add: p)
  qed
qed

lemma set_loc_triples:
  "set (loc_triples qd_ts loc) =
     {(l, ew, v). l = loc \<and> (\<exists>d. map_of qd_ts loc = Some d \<and> map_of d ew = Some v)}"
proof (cases "map_of qd_ts loc")
  case None
  then show ?thesis by (simp add: loc_triples_def)
next
  case (Some d)
  then show ?thesis by (auto simp: loc_triples_def set_sorted_items)
qed

lemma set_pass_triples:
  "set (pass_triples qd_ts locations) =
     {(loc, ew, v). loc \<in> set locations \<and> (\<exists>d. map_of qd_ts loc = Some d \<and> map_of d ew = Some v)}"
  by (auto simp: pass_triples_def set_loc_triples)

lemma update_quid_db_effect:
  assumes w'_def: "w' = update_quid_db env locations first last' qd_ts update_field w"
  shows "table w' = apply_triples (sql_for update_field) (pass_triples qd_ts locations) (table w)"
    and "\<exists>es. trace w' =
            trace w @ [Db_execute Select_window,
                       Print_checking (fst (resolve_window env first last' (table w)))
                                      (snd (resolve_window env first last' (table w))),
                       Db_execute Select_count] @ es @
                      [Db_execute Select_count,
                       Print_inserted (int (length (table w')) - int (length (table w)))
                                      (length (pass_triples qd_ts locations))] \<and>
            upserts_of es =
              map (\<lambda>(loc, ew, v). (sql_for update_field, loc, ew, v)) (pass_triples qd_ts locations) \<and>
            (\<forall>e \<in> set es. (\<exists>c l ew v. e = Db_execute (Upsert c l ew v)) \<or>
                           (\<exists>l a b. e = Print_missing l a b))"
proof -
  define w3 where "w3 = emit (Db_execute Select_count)
     (emit (Print_checking (fst (resolve_window env first last' (table w)))
                           (snd (resolve_window env first last' (table w))))
        (emit (Db_execute Select_window) w))"
  obtain w4 n where l: "loc_loop (sql_for update_field) qd_ts locations (w3, 0) = (w4, n)"
    by (cases "loc_loop (sql_for update_field) qd_ts locations (w3, 0)")
  have w': "w' = emit (Print_inserted (int (length (table w4)) - int (length (table w))) n)
                   (emit (Db_execute Select_count) w4)"
    using l by (simp add: w'_def update_quid_db_def get_num_rows_def Let_def w3_def
        case_prod_beta)
  note L = loc_loop_effect[OF l]
  from L w' show "table w' = apply_triples (sql_for update_field) (pass_triples qd_ts locations) (table w)"
    by (simp add: w3_def)
  from L obtain es where es: "trace w4 = trace w3 @ es"
     "upserts_of es = map (\<lambda>(loc, ew, v). (sql_for update_field, loc, ew, v)) (pass_triples qd_ts locations)"
     "\<forall>e \<in> set es. (\<exists>c l ew v. e = Db_execute (Upsert c l ew v)) \<or> (\<exists>l a b. e = Print_missing l a b)"
    by blast
  have "trace w' =
            trace w @ [Db_execute Select_window,
                       Print_checking (fst (resolve_window env first last' (table w)))
                                      (snd (resolve_window env first last' (table w))),
                       Db_execute Select_count] @ es @
                      [Db_execute Select_count,
                       Print_inserted (int (length (table w')) - int (length (table w)))
                                      (length (pass_triples qd_ts locations))]"
    using es(1) L w' by (simp add: w3_def)
  with es(2,3) show "\<exists>es. trace w' =
            trace w @ [Db_execute Select_window,
                       Print_checking (fst (resolve_window env first last' (table w)))
                                      (snd (resolve_window env first last' (table w))),
                       Db_execute Select_count] @ es @
                      [Db_execute Select_count,
                       Print_inserted (int (length (table w')) - int (length (table w)))
                                      (length (pass_triples qd_ts locations))] \<and>
            upserts_of es =
              map (\<lambda>(loc, ew, v). (sql_for update_field, loc, ew, v)) (pass_triples qd_ts locations) \<and>
            (\<forall>e \<in> set es. (\<exists>c l ew v. e = Db_execute (Upsert c l ew v)) \<or>
                           (\<exists>l a b. e = Print_missing l a b))"
    by blast
qed

lemma upserts_of_pass:
  "upserts_of (emitted w (update_quid_db env locations first last' qd_ts update_field w)) =
     map (\<lambda>(loc, ew, v). (sql_for update_field, loc, ew, v)) (pass_triples qd_ts locations)"
proof -
  from update_quid_db_effect(2)[OF refl, of env locations first last' qd_ts update_field w]
  obtain es where es: "trace (update_quid_db env locations first last' qd_ts update_field w) =
            trace w @ [Db_execute Select_window,
                       Print_checking (fst (resolve_window env first last' (table w)))
                                      (snd (resolve_window env first last' (table w))),
                       Db_execute Select_count] @ es @
                      [Db_execute Select_count,
                       Print_inserted (int (length (table (update_quid_db env locations first last' qd_ts update_field w))) - int (length (table w)))
                                      (length (pass_triples qd_ts locations))]"
     "upserts_of es = map (\<lambda>(loc, ew, v). (sql_for update_field, loc, ew, v)) (pass_triples qd_ts locations)"
    by blast
  show ?thesis
    unfolding emitted_append[OF es(1)] using es(2) by simp
qed

text \<open>The second event of a pass is the print of the window of lines 92 to 96.\<close>

lemma pass_reports_window:
  "emitted w (update_quid_db env locations first last' qd_ts update_field w) ! 1 =
     Print_checking (fst (resolve_window env first last' (table w)))
                    (snd (resolve_window env first last' (table w)))"
proof -
  from update_quid_db_effect(2)[OF refl, of env locations first last' qd_ts update_field w]
  obtain es where "trace (update_quid_db env locations first last' qd_ts update_field w) =
            trace w @ [Db_execute Select_window,
                       Print_checking (fst (resolve_window env first last' (table w)))
                                      (snd (resolve_window env first last' (table w))),
                       Db_execute Select_count] @ es @
                      [Db_execute Select_count,
                       Print_inserted (int (length (table (update_quid_db env locations first last' qd_ts update_field w))) - int (length (table w)))
                                      (length (pass_triples qd_ts locations))]"
    by blast
  from emitted_append[OF this] show ?thesis by simp
qed

subsection \<open>Rows and the upsert statement\<close>

lemma row_key_set_col [simp]: "row_key (set_col c v r) = row_key r"
  by (cases c) (simp_all add: row_key_def)

lemma row_key_new_row [simp]: "row_key (new_row c loc ew v) = (loc, ew)"
  by (simp add: new_row_def) (simp add: row_key_def)

lemma get_col_set_col: "get_col c' (set_col c v r) = (if c' = c then Some v else get_col c' r)"
  by (cases c; cases c') simp_all

lemma get_col_new_row: "get_col c' (new_row c loc ew v) = (if c' = c then Some v else None)"
  by (simp add: new_row_def get_col_set_col) (cases c'; simp)

lemma set_col_idem: "get_col c r = Some v \<Longrightarrow> set_col c v r = r"
  by (cases c) simp_all

lemma set_col_set_col [simp]: "set_col c v' (set_col c v r) = set_col c v' r"
  by (cases c) simp_all

lemma set_col_new_row [simp]: "set_col c v' (new_row c loc ew v) = new_row c loc ew v'"
  by (simp add: new_row_def)

lemma map_key_upsert:
  "map row_key (upsert c loc ew v tbl) =
     (if (loc, ew) \<in> set (map row_key tbl) then map row_key tbl else map row_key tbl @ [(loc, ew)])"
  by (simp add: upsert_def comp_def if_distrib cong: if_cong)

lemma keys_upsert:
  "set (map row_key (upsert c loc ew v tbl)) = insert (loc, ew) (set (map row_key tbl))"
  unfolding map_key_upsert by auto

lemma distinct_upsert:
  "distinct (map row_key tbl) \<Longrightarrow> distinct (map row_key (upsert c loc ew v tbl))"
  by (simp add: map_key_upsert)

lemma length_upsert:
  "length (upsert c loc ew v tbl) =
     (if (loc, ew) \<in> set (map row_key tbl) then length tbl else Suc (length tbl))"
  by (simp add: upsert_def)

subsection \<open>The table after the statements of a pass\<close>

lemma keys_apply_triples:
  "set (map row_key (apply_triples c ts tbl)) = triple_key ` set ts \<union> set (map row_key tbl)"
proof (induction ts arbitrary: tbl)
  case Nil
  then show ?case by simp
next
  case (Cons t ts)
  obtain loc ew v where t: "t = (loc, ew, v)" by (cases t)
  show ?case unfolding t apply_triples_simps Cons.IH keys_upsert
    by (auto simp: triple_key_def)
qed

lemma length_apply_triples:
  "length (apply_triples c ts tbl) =
     length tbl + card (triple_key ` set ts - set (map row_key tbl))"
proof (induction ts arbitrary: tbl)
  case Nil
  then show ?case by simp
next
  case (Cons t ts)
  obtain loc ew v where t: "t = (loc, ew, v)" by (cases t)
  let ?K = "set (map row_key tbl)"
  let ?T = "triple_key ` set ts"
  have step: "length (apply_triples c (t # ts) tbl) =
     length (upsert c loc ew v tbl) + card (?T - insert (loc, ew) ?K)"
    unfolding t apply_triples_simps Cons.IH keys_upsert ..
  have img: "triple_key ` set (t # ts) = insert (loc, ew) ?T"
    by (simp add: t triple_key_def)
  show ?case
  proof (cases "(loc, ew) \<in> ?K")
    case True
    then have "insert (loc, ew) ?K = ?K" "insert (loc, ew) ?T - ?K = ?T - ?K" by auto
    with True step img show ?thesis by (simp add: length_upsert)
  next
    case False
    have "insert (loc, ew) ?T - ?K = insert (loc, ew) (?T - insert (loc, ew) ?K)"
      using False by auto
    moreover have "card (insert (loc, ew) (?T - insert (loc, ew) ?K)) =
        Suc (card (?T - insert (loc, ew) ?K))"
      by (rule card_insert_disjoint) auto
    ultimately show ?thesis using False step img by (simp add: length_upsert)
  qed
qed

lemma row_rel_refl [simp]: "row_rel c r r"
  by (simp add: row_rel_def)

lemma row_rel_trans: "row_rel c r r' \<Longrightarrow> row_rel c r' r'' \<Longrightarrow> row_rel c r r''"
  by (auto simp: row_rel_def)

lemma row_rel_cols:
  "row_rel c r r' \<Longrightarrow> row_key r' = row_key r \<and> (\<forall>c'. c' \<noteq> c \<longrightarrow> get_col c' r' = get_col c' r)"
  by (auto simp: row_rel_def get_col_set_col)

lemma upsert_row_rel:
  "r \<in> set tbl \<Longrightarrow> \<exists>r' \<in> set (upsert c loc ew v tbl). row_rel c r r'"
  by (auto simp: upsert_def row_rel_def image_iff)

lemma apply_triples_row_rel:
  "r \<in> set tbl \<Longrightarrow> \<exists>r' \<in> set (apply_triples c ts tbl). row_rel c r r'"
proof (induction ts arbitrary: tbl r)
  case Nil
  then show ?case using row_rel_refl by (simp add: bexI[of _ r])
next
  case (Cons t ts)
  obtain loc ew v where t: "t = (loc, ew, v)" by (cases t)
  from upsert_row_rel[OF Cons.prems] obtain r1
    where r1: "r1 \<in> set (upsert c loc ew v tbl)" "row_rel c r r1" by blast
  from Cons.IH[OF r1(1)] obtain r'
    where "r' \<in> set (apply_triples c ts (upsert c loc ew v tbl))" "row_rel c r1 r'" by blast
  with r1(2) show ?case unfolding t apply_triples_simps
    using row_rel_trans by blast
qed

lemma upsert_other_key:
  "row_key r \<noteq> (loc, ew) \<Longrightarrow> r \<in> set (upsert c loc ew v tbl) \<longleftrightarrow> r \<in> set tbl"
  by (auto simp: upsert_def)

lemma apply_triples_other_key:
  "row_key r \<notin> triple_key ` set ts \<Longrightarrow> r \<in> set (apply_triples c ts tbl) \<longleftrightarrow> r \<in> set tbl"
proof (induction ts arbitrary: tbl)
  case Nil
  then show ?case by simp
next
  case (Cons t ts)
  obtain loc ew v where t: "t = (loc, ew, v)" by (cases t)
  from Cons.prems have "row_key r \<noteq> (loc, ew)" "row_key r \<notin> triple_key ` set ts"
    by (auto simp: t triple_key_def)
  with Cons.IH show ?case unfolding t apply_triples_simps
    by (simp add: upsert_other_key)
qed

lemma upsert_new_rows:
  assumes "\<forall>r \<in> set tbl. row_key r \<notin> K \<longrightarrow> (\<exists>l e x. r = new_row c l e x)"
  shows "\<forall>r \<in> set (upsert c loc ew v tbl). row_key r \<notin> K \<longrightarrow> (\<exists>l e x. r = new_row c l e x)"
proof
  fix r assume r: "r \<in> set (upsert c loc ew v tbl)"
  show "row_key r \<notin> K \<longrightarrow> (\<exists>l e x. r = new_row c l e x)"
  proof
    assume k: "row_key r \<notin> K"
    from r consider "r \<in> set tbl" | r0 where "r0 \<in> set tbl" "r = set_col c v r0"
      | "r = new_row c loc ew v"
      by (auto simp: upsert_def split: if_splits)
    then show "\<exists>l e x. r = new_row c l e x"
    proof cases
      case 1
      with assms k show ?thesis by blast
    next
      case 2
      with k have "row_key r0 \<notin> K" by simp
      with assms 2 obtain l e x where "r0 = new_row c l e x" by blast
      with 2 have "r = new_row c l e v" by simp
      then show ?thesis by blast
    next
      case 3
      then show ?thesis by blast
    qed
  qed
qed

lemma apply_triples_new_rows:
  assumes "\<forall>r \<in> set tbl. row_key r \<notin> K \<longrightarrow> (\<exists>l e x. r = new_row c l e x)"
  shows "\<forall>r \<in> set (apply_triples c ts tbl). row_key r \<notin> K \<longrightarrow> (\<exists>l e x. r = new_row c l e x)"
  using assms
proof (induction ts arbitrary: tbl)
  case Nil
  then show ?case by simp
next
  case (Cons t ts)
  obtain loc ew v where t: "t = (loc, ew, v)" by (cases t)
  show ?case unfolding t apply_triples_simps
    by (rule Cons.IH) (rule upsert_new_rows[OF Cons.prems])
qed

lemma distinct_apply_triples:
  "distinct (map row_key tbl) \<Longrightarrow> distinct (map row_key (apply_triples c ts tbl))"
proof (induction ts arbitrary: tbl)
  case Nil
  then show ?case by simp
next
  case (Cons t ts)
  obtain loc ew v where t: "t = (loc, ew, v)" by (cases t)
  show ?case unfolding t apply_triples_simps
    by (rule Cons.IH) (rule distinct_upsert[OF Cons.prems])
qed

subsection \<open>Repeating a list of statements\<close>

lemma apply_upserts_simps [simp]:
  "apply_upserts [] tbl = tbl"
  "apply_upserts ((c, loc, ew, v) # us) tbl = apply_upserts us (upsert c loc ew v tbl)"
  "apply_upserts (us @ vs) tbl = apply_upserts vs (apply_upserts us tbl)"
  by (simp_all add: apply_upserts_def)

lemma apply_triples_upserts: "apply_triples c ts tbl = apply_upserts (map (Pair c) ts) tbl"
  by (induction ts arbitrary: tbl) auto

lemma holds_upsert_id:
  assumes "holds tbl (c, loc, ew, v)"
  shows "upsert c loc ew v tbl = tbl"
proof -
  have "map (\<lambda>r. if row_key r = (loc, ew) then set_col c v r else r) tbl = tbl"
    using assms by (intro map_idI) (auto simp: holds_def set_col_idem)
  with assms show ?thesis by (simp add: upsert_def holds_def)
qed

lemma holds_after_upsert: "holds (upsert c loc ew v tbl) (c, loc, ew, v)"
  unfolding holds_def prod.case keys_upsert
  by (auto simp: upsert_def get_col_set_col get_col_new_row image_iff)

lemma holds_preserved:
  assumes "holds tbl u" and "compatible u (c', loc', ew', v')"
  shows "holds (upsert c' loc' ew' v' tbl) u"
proof -
  obtain c loc ew v where u: "u = (c, loc, ew, v)" by (cases u)
  from assms(1) have k: "(loc, ew) \<in> set (map row_key tbl)"
    and g: "\<And>r. r \<in> set tbl \<Longrightarrow> row_key r = (loc, ew) \<Longrightarrow> get_col c r = Some v"
    by (auto simp: holds_def u)
  from assms(2) have cmp: "c = c' \<Longrightarrow> loc = loc' \<Longrightarrow> ew = ew' \<Longrightarrow> v = v'"
    by (simp add: compatible_def u)
  have "get_col c r = Some v"
    if r: "r \<in> set (upsert c' loc' ew' v' tbl)" and rk: "row_key r = (loc, ew)" for r
  proof -
    from r consider "r \<in> set tbl"
      | r0 where "r0 \<in> set tbl" "row_key r0 = (loc', ew')" "r = set_col c' v' r0"
      | "(loc', ew') \<notin> set (map row_key tbl)" "r = new_row c' loc' ew' v'"
      by (auto simp: upsert_def split: if_splits)
    then show ?thesis
    proof cases
      case 1
      then show ?thesis using g rk by blast
    next
      case 2
      with rk have same: "loc = loc'" "ew = ew'" by simp_all
      with 2 g have "get_col c r0 = Some v" by blast
      with 2 cmp same show ?thesis by (auto simp: get_col_set_col)
    next
      case 3
      with rk k show ?thesis by simp
    qed
  qed
  with k show ?thesis
    unfolding u holds_def prod.case keys_upsert by blast
qed

lemma holds_all_after:
  assumes "\<forall>u \<in> set us. \<forall>u' \<in> set us. compatible u u'"
  shows "\<forall>u \<in> set us. holds (apply_upserts us tbl) u"
  using assms
proof (induction us rule: rev_induct)
  case Nil
  then show ?case by simp
next
  case (snoc x us)
  obtain c loc ew v where x: "x = (c, loc, ew, v)" by (cases x)
  from snoc.prems have "\<forall>u \<in> set us. \<forall>u' \<in> set us. compatible u u'" by simp
  from snoc.IH[OF this] have ih: "\<forall>u \<in> set us. holds (apply_upserts us tbl) u" .
  have "holds (apply_upserts (us @ [x]) tbl) u" if "u \<in> set (us @ [x])" for u
  proof (cases "u = x")
    case True
    then show ?thesis by (simp add: x holds_after_upsert)
  next
    case False
    with that have m: "u \<in> set us" by simp
    with snoc.prems have "compatible u (c, loc, ew, v)" by (simp add: x)
    with ih m show ?thesis by (simp add: x holds_preserved)
  qed
  then show ?case by blast
qed

lemma holds_all_id:
  assumes "\<forall>u \<in> set us. holds tbl u"
  shows "apply_upserts us tbl = tbl"
  using assms
proof (induction us)
  case Nil
  then show ?case by simp
next
  case (Cons x us)
  obtain c loc ew v where x: "x = (c, loc, ew, v)" by (cases x)
  from Cons.prems have "upsert c loc ew v tbl = tbl" by (simp add: x holds_upsert_id)
  with Cons show ?case by (simp add: x)
qed

lemma apply_upserts_idem:
  assumes "\<forall>u \<in> set us. \<forall>u' \<in> set us. compatible u u'"
  shows "apply_upserts us (apply_upserts us tbl) = apply_upserts us tbl"
  by (rule holds_all_id) (rule holds_all_after[OF assms])

subsection \<open>The statements of a run\<close>

lemma sql_for_names [simp]:
  "sql_for ''value'' = Col_value" "sql_for ''num_rows'' = Col_num_rows"
  "sql_for ''num_devices'' = Col_num_devices"
  by (simp_all add: sql_for_def)

lemma update_table:
  "table (update env locations first last' force_update load_email w) =
     (if \<not> need_update (QuidelData env load_email) \<and> \<not> force_update then table w
      else apply_upserts (run_upserts env locations first last' load_email) (table w))"
  by (simp add: update_def Let_def run_upserts_def run_series_def
      update_quid_db_effect(1)[OF refl] apply_triples_upserts)

lemma run_upserts_entry:
  assumes "u \<in> set (run_upserts env locations first last' load_email)"
  shows "\<exists>d. map_of (run_series env first last' load_email (column_index (fst u))) (fst (snd u)) = Some d \<and>
             map_of d (fst (snd (snd u))) = Some (snd (snd (snd u)))"
  using assms by (auto simp: run_upserts_def set_pass_triples)

lemma run_upserts_compatible:
  "\<forall>u \<in> set (run_upserts env locations first last' load_email).
   \<forall>u' \<in> set (run_upserts env locations first last' load_email). compatible u u'"
proof (intro ballI)
  fix u u'
  assume a: "u \<in> set (run_upserts env locations first last' load_email)"
    and b: "u' \<in> set (run_upserts env locations first last' load_email)"
  show "compatible u u'"
    unfolding compatible_def
  proof
    assume e: "fst u = fst u' \<and> fst (snd u) = fst (snd u') \<and> fst (snd (snd u)) = fst (snd (snd u'))"
    from run_upserts_entry[OF a] run_upserts_entry[OF b] e
    have "snd (snd (snd u)) = snd (snd (snd u'))" by auto
    with e show "u = u'" by (simp add: prod_eq_iff)
  qed
qed

lemma in_bounds_measurement_to_ts:
  assumes "map_of (measurement_to_ts field m index startweek endweek) r = Some d"
    and "map_of d t = Some v"
  shows "in_bounds startweek endweek t"
proof -
  from map_of_SomeD[OF assms(1)] obtain d0 where
    d: "d = map (\<lambda>(t, x). (t, field index x)) (filter (\<lambda>(t, x). in_bounds startweek endweek t) d0)"
    by (auto simp: measurement_to_ts_def)
  from map_of_SomeD[OF assms(2)] show ?thesis
    unfolding d by auto
qed

lemma run_upserts_in_bounds:
  assumes "u \<in> set (run_upserts env locations first last' load_email)"
  shows "in_bounds first last' (fst (snd (snd u)))"
proof -
  from run_upserts_entry[OF assms] obtain d where
    "map_of (run_series env first last' load_email (column_index (fst u))) (fst (snd u)) = Some d"
    "map_of d (fst (snd (snd u))) = Some (snd (snd (snd u)))"
    by blast
  then show ?thesis
    unfolding run_series_def Let_def by (rule in_bounds_measurement_to_ts)
qed

lemma trace_pass:
  "\<exists>es. trace (update_quid_db env locations first last' qd_ts update_field w) = trace w @ es \<and>
        upserts_of es =
          map (Pair (sql_for update_field)) (pass_triples qd_ts locations)"
proof -
  from update_quid_db_effect(2)[OF refl, of env locations first last' qd_ts update_field w]
  obtain es where es: "trace (update_quid_db env locations first last' qd_ts update_field w) =
            trace w @ [Db_execute Select_window,
                       Print_checking (fst (resolve_window env first last' (table w)))
                                      (snd (resolve_window env first last' (table w))),
                       Db_execute Select_count] @ es @
                      [Db_execute Select_count,
                       Print_inserted (int (length (table (update_quid_db env locations first last' qd_ts update_field w))) - int (length (table w)))
                                      (length (pass_triples qd_ts locations))]"
     "upserts_of es = map (\<lambda>(loc, ew, v). (sql_for update_field, loc, ew, v)) (pass_triples qd_ts locations)"
    by blast
  have "(\<lambda>(loc, ew, v). (c, loc, ew, v)) = Pair c" for c :: column
    by (rule ext) (simp add: case_prod_beta)
  with es show ?thesis by simp
qed

lemma upserts_of_update:
  "upserts_of (emitted w (update env locations first last' force_update load_email w)) =
     (if \<not> need_update (QuidelData env load_email) \<and> \<not> force_update then []
      else run_upserts env locations first last' load_email)"
proof (cases "\<not> need_update (QuidelData env load_email) \<and> \<not> force_update")
  case True
  then show ?thesis by (simp add: update_def Let_def emitted_def)
next
  case False
  define w3 where "w3 = emit Db_connect (emit Load_csv (emit (QuidelData_init load_email) w))"
  define w4 where "w4 = update_quid_db env locations first last'
      (run_series env first last' load_email 7) ''value'' w3"
  define w5 where "w5 = update_quid_db env locations first last'
      (run_series env first last' load_email 3) ''num_rows'' w4"
  define w6 where "w6 = update_quid_db env locations first last'
      (run_series env first last' load_email 8) ''num_devices'' w5"
  have u: "update env locations first last' force_update load_email w =
      emit Db_close (emit Db_commit (emit Cursor_close w6))"
    using False by (auto simp: update_def Let_def w6_def w5_def w4_def w3_def run_series_def)
  from trace_pass[of env locations first last' "run_series env first last' load_email 7" "''value''" w3]
  obtain e1 where e1: "trace w4 = trace w3 @ e1"
    "upserts_of e1 = map (Pair Col_value) (pass_triples (run_series env first last' load_email 7) locations)"
    unfolding w4_def by auto
  from trace_pass[of env locations first last' "run_series env first last' load_email 3" "''num_rows''" w4]
  obtain e2 where e2: "trace w5 = trace w4 @ e2"
    "upserts_of e2 = map (Pair Col_num_rows) (pass_triples (run_series env first last' load_email 3) locations)"
    unfolding w5_def by auto
  from trace_pass[of env locations first last' "run_series env first last' load_email 8" "''num_devices''" w5]
  obtain e3 where e3: "trace w6 = trace w5 @ e3"
    "upserts_of e3 = map (Pair Col_num_devices) (pass_triples (run_series env first last' load_email 8) locations)"
    unfolding w6_def by auto
  have "trace (update env locations first last' force_update load_email w) =
     trace w @ ([QuidelData_init load_email, Load_csv, Db_connect] @ e1 @ e2 @ e3 @
                [Cursor_close, Db_commit, Db_close])"
    unfolding u using e1(1) e2(1) e3(1) by (simp add: w3_def)
  from emitted_append[OF this] e1(2) e2(2) e3(2) False show ?thesis
    by (auto simp: run_upserts_def)
qed

lemma update_writes_in_bounds:
  assumes "(c, loc, ew, v) \<in> set (upserts_of (emitted w (update env locations first last' force_update load_email w)))"
  shows "in_bounds first last' ew"
proof -
  from assms have "(c, loc, ew, v) \<in> set (run_upserts env locations first last' load_email)"
    unfolding upserts_of_update by (simp split: if_splits)
  from run_upserts_in_bounds[OF this] show ?thesis by simp
qed

lemma keys_apply_upserts:
  "set (map row_key tbl) \<subseteq> set (map row_key (apply_upserts us tbl))"
proof (induction us arbitrary: tbl)
  case Nil
  then show ?case by simp
next
  case (Cons u us)
  obtain c loc ew v where u: "u = (c, loc, ew, v)" by (cases u)
  have "set (map row_key tbl) \<subseteq> set (map row_key (upsert c loc ew v tbl))"
    unfolding keys_upsert by blast
  also have "\<dots> \<subseteq> set (map row_key (apply_upserts us (upsert c loc ew v tbl)))"
    by (rule Cons.IH)
  finally show ?case by (simp add: u)
qed

lemma update_never_deletes:
  "set (map row_key (table w)) \<subseteq>
     set (map row_key (table (update env locations first last' force_update load_email w)))"
  unfolding update_table by (simp add: keys_apply_upserts del: set_map)

section \<open>The window\<close>

text \<open>
  C4: when both overrides are supplied the resolved window is exactly \<open>(first, last)\<close>,
  whatever the table holds and whatever the current week is; a supplied \<open>first\<close> replaces
  \<open>ew0\<close> and a supplied \<open>last\<close> replaces \<open>ew1\<close>. The window is what each pass prints
  (\<open>pass_reports_window\<close>).
\<close>

theorem window_override_precedence:
  "resolve_window env (Some f) (Some l) tbl = (f, l) \<and>
   fst (resolve_window env (Some f) last' tbl) = f \<and>
   snd (resolve_window env first (Some l) tbl) = l"
  by (simp add: resolve_window_def Let_def)

text \<open>
  C5: without a \<open>first\<close> override, \<open>ew0\<close> is the epoch epiweek 200401 on an empty table,
  and otherwise \<open>add_epiweeks\<close> of the maximum epiweek of the table and \<open>-4\<close>.
\<close>

theorem window_lower_bound:
  "fst (resolve_window env None last' []) = 200401 \<and>
   fst (resolve_window env None last' (r # tbl)) =
     add_epiweeks env (Max (set (map r_epiweek (r # tbl)))) (- 4)"
  by (simp add: resolve_window_def max_epiweek_def Let_def)

section \<open>The command line\<close>

text \<open>
  C6: when both overrides are present with \<open>first > last\<close>, or when \<open>check_epiweek\<close>
  refuses one of them, \<open>main\<close> ends with the exception of the sanity check and the world is
  the one it started in: nothing was loaded, counted or written.
\<close>

theorem configuration_rejection:
  assumes "(\<exists>f l. arg_first args = Some f \<and> arg_last args = Some l \<and> f > l) \<or>
           (\<exists>f. arg_first args = Some f \<and> \<not> check_epiweek env f) \<or>
           (\<exists>l. arg_last args = Some l \<and> \<not> check_epiweek env l)"
  shows "\<exists>e. main env args w = (Some e, w) \<and>
             (e = Exception ''epiweeks in the wrong order'' \<or> (\<exists>ew. e = Invalid_epiweek ew))"
  using assms by (auto simp: main_def Let_def split: option.splits)

theorem configuration_rejection_witness:
  "arg_first (example_args (Some ''all'') (Some 200520) (Some 200510)) = Some 200520 \<and>
   arg_last (example_args (Some ''all'') (Some 200520) (Some 200510)) = Some 200510 \<and>
   (200520 :: int) > 200510 \<and>
   main (example_env True) (example_args (Some ''all'') (Some 200520) (Some 200510)) empty_world =
     (Some (Exception ''epiweeks in the wrong order''), empty_world)"
  using configuration_rejection [of "example_args (Some ''all'') (Some 200520) (Some 200510)"
      "example_env True" empty_world]
  by (simp add: example_args_def example_env_def main_def)

lemma lower_ascii: "is_ascii s \<Longrightarrow> lower env s = map lower_char s"
  by (simp add: lower_def)

lemma lower_all [simp]: "lower env ''all'' = ''all''"
  by (simp add: lower_def is_ascii_def lower_char_def)

text \<open>
  C10 (as amended): when \<open>--location\<close> is omitted \<open>main\<close> raises before \<open>update\<close> is
  called and leaves the world as it was. The exception is the \<open>AttributeError\<close> of
  \<open>None.lower()\<close> exactly when the overrides pass the sanity check of lines 176 to 181;
  otherwise it is the exception of that check, which comes first. There is no default
  for the locations: when \<open>--location\<close> is given and the overrides pass, \<open>update\<close> is
  called with the full list \<open>LOCATIONS\<close> when the lowercased argument is \<open>all\<close>, as it is
  for \<open>--location all\<close>, and otherwise with the lowercased argument split at its commas.
\<close>

theorem location_omitted:
  "(arg_location args = None \<longrightarrow>
      (\<exists>e. main env args w = (Some e, w) \<and>
            (e = AttributeError \<longleftrightarrow>
               (case arg_first args of None \<Rightarrow> True | Some f \<Rightarrow> check_epiweek env f) \<and>
               (case arg_last args of None \<Rightarrow> True | Some l \<Rightarrow> check_epiweek env l) \<and>
               (case (arg_first args, arg_last args) of
                  (Some f, Some l) \<Rightarrow> f \<le> l | _ \<Rightarrow> True)))) \<and>
   (\<forall>location. arg_location args = Some location \<longrightarrow> overrides_accepted env args \<longrightarrow>
      main env args w =
        (None, update env
                 (if lower env location = ''all'' then LOCATIONS env
                  else split CHR '','' (lower env location))
                 (arg_first args) (arg_last args) (arg_force_update args)
                 (\<not> arg_skip_email args) w)) \<and>
   (arg_location args = Some ''all'' \<longrightarrow> overrides_accepted env args \<longrightarrow>
      main env args w =
        (None, update env (LOCATIONS env) (arg_first args) (arg_last args)
                 (arg_force_update args) (\<not> arg_skip_email args) w))"
proof (intro conjI impI allI)
  assume "arg_location args = None"
  then show "\<exists>e. main env args w = (Some e, w) \<and>
            (e = AttributeError \<longleftrightarrow>
               (case arg_first args of None \<Rightarrow> True | Some f \<Rightarrow> check_epiweek env f) \<and>
               (case arg_last args of None \<Rightarrow> True | Some l \<Rightarrow> check_epiweek env l) \<and>
               (case (arg_first args, arg_last args) of
                  (Some f, Some l) \<Rightarrow> f \<le> l | _ \<Rightarrow> True))"
    by (auto simp: main_def Let_def split: option.splits)
next
  fix location
  assume "arg_location args = Some location" and "overrides_accepted env args"
  then show "main env args w =
        (None, update env
                 (if lower env location = ''all'' then LOCATIONS env
                  else split CHR '','' (lower env location))
                 (arg_first args) (arg_last args) (arg_force_update args)
                 (\<not> arg_skip_email args) w)"
    by (auto simp: main_def overrides_accepted_def Let_def split: option.splits)
next
  assume "arg_location args = Some ''all''" and "overrides_accepted env args"
  then show "main env args w =
        (None, update env (LOCATIONS env) (arg_first args) (arg_last args)
                 (arg_force_update args) (\<not> arg_skip_email args) w)"
    by (auto simp: main_def overrides_accepted_def Let_def split: option.splits)
qed

text \<open>
  Without \<open>--location\<close> the run ends with the \<open>AttributeError\<close>; \<open>--location all\<close>
  reaches \<open>update\<close> with the ten regions, \<open>--location HHS1,hhs2\<close> with the two it names.
\<close>

theorem location_omitted_witness:
  "arg_location (example_args None None None) = None \<and>
   main (example_env True) (example_args None None None) empty_world =
     (Some AttributeError, empty_world) \<and>
   arg_location (example_args (Some ''all'') None None) = Some ''all'' \<and>
   overrides_accepted (example_env True) (example_args (Some ''all'') None None) \<and>
   main (example_env True) (example_args (Some ''all'') None None) empty_world =
     (None, update (example_env True)
              [''hhs1'', ''hhs2'', ''hhs3'', ''hhs4'', ''hhs5'',
               ''hhs6'', ''hhs7'', ''hhs8'', ''hhs9'', ''hhs10'']
              None None False False empty_world) \<and>
   arg_location (example_args (Some ''HHS1,hhs2'') None None) = Some ''HHS1,hhs2'' \<and>
   overrides_accepted (example_env True) (example_args (Some ''HHS1,hhs2'') None None) \<and>
   main (example_env True) (example_args (Some ''HHS1,hhs2'') None None) empty_world =
     (None, update (example_env True) [''hhs1'', ''hhs2''] None None False False empty_world)"
proof -
  have l: "lower (example_env True) ''HHS1,hhs2'' = ''hhs1,hhs2''"
    by code_simp
  have s: "split CHR '','' ''hhs1,hhs2'' = [''hhs1'', ''hhs2'']"
    by simp
  have a: "overrides_accepted (example_env True) (example_args loc None None)" for loc
    by (simp add: overrides_accepted_def example_args_def)
  from location_omitted [of "example_args None None None" "example_env True" empty_world]
  have 1: "main (example_env True) (example_args None None None) empty_world =
     (Some AttributeError, empty_world)"
    by (auto simp: example_args_def)
  from location_omitted [of "example_args (Some ''all'') None None" "example_env True" empty_world] a
  have 2: "main (example_env True) (example_args (Some ''all'') None None) empty_world =
     (None, update (example_env True)
              [''hhs1'', ''hhs2'', ''hhs3'', ''hhs4'', ''hhs5'',
               ''hhs6'', ''hhs7'', ''hhs8'', ''hhs9'', ''hhs10'']
              None None False False empty_world)"
    by (simp add: example_args_def example_env_def)
  from location_omitted [of "example_args (Some ''HHS1,hhs2'') None None" "example_env True" empty_world] a
  have 3: "main (example_env True) (example_args (Some ''HHS1,hhs2'') None None) empty_world =
     (None, update (example_env True) [''hhs1'', ''hhs2''] None None False False empty_world)"
    by (simp add: example_args_def l s)
  from 1 2 3 a show ?thesis by (simp add: example_args_def)
qed

text \<open>
  With \<open>--location\<close> omitted and \<open>first > last\<close> the exception is the one of line 181, not
  the \<open>AttributeError\<close>.
\<close>

theorem location_omitted_counterexample:
  "arg_location (example_args None (Some 200520) (Some 200510)) = None \<and>
   main (example_env True) (example_args None (Some 200520) (Some 200510)) empty_world \<noteq>
     (Some AttributeError, empty_world) \<and>
   main (example_env True) (example_args None (Some 200520) (Some 200510)) empty_world =
     (Some (Exception ''epiweeks in the wrong order''), empty_world)"
  by (simp add: example_args_def example_env_def main_def)

section \<open>The run\<close>

text \<open>
  C7: when the collaborator reports no new data and \<open>force_update\<close> is not set, the run
  constructs the collaborator, prints the message and returns: the table is untouched and
  no database call is in the trace.
\<close>

theorem no_update_needed:
  assumes "\<not> need_update (QuidelData env load_email)" and "\<not> force_update"
  shows "table (update env locations first last' force_update load_email w) = table w \<and>
         emitted w (update env locations first last' force_update load_email w) =
           [QuidelData_init load_email, Print_no_update]"
  using assms by (simp add: update_def Let_def emitted_def)

theorem no_update_needed_witness:
  "\<not> need_update (QuidelData (example_env False) True) \<and> \<not> False \<and>
   update (example_env False) [''hhs1''] None None False True empty_world =
     \<lparr>table = [], trace = [QuidelData_init True, Print_no_update]\<rparr>"
  using no_update_needed [of "example_env False" True False "[''hhs1'']" None None empty_world]
  by (simp add: example_env_def empty_world_def update_def emit_def)

section \<open>One pass\<close>

text \<open>
  C8: the statements a pass issues are exactly the triples of the requested locations that
  are keys of the series: a requested location absent from the series and a location of the
  series that was not requested contribute nothing.
\<close>

theorem location_filtering:
  "set (upserts_of (emitted w (update_quid_db env locations first last' qd_ts update_field w))) =
     {(sql_for update_field, loc, ew, v) | loc ew v.
        loc \<in> set locations \<and> (\<exists>d. map_of qd_ts loc = Some d \<and> map_of d ew = Some v)}"
  unfolding upserts_of_pass by (auto simp: set_pass_triples image_iff)

text \<open>
  Requesting \<open>hhs1\<close> and \<open>hhs2\<close> against a series with the keys \<open>hhs1\<close> and \<open>hhs3\<close>:
  the statements are those of \<open>hhs1\<close>.
\<close>

lemma location_filtering_example:
  "upserts_of (emitted empty_world
     (update_quid_db (example_env True) [''hhs1'', ''hhs2''] None None
        (measurement_to_ts (\<lambda>index t. t ! index) (example_measurements True) 7 None None)
        ''value'' empty_world)) =
   [(Col_value, ''hhs1'', 201701, 2), (Col_value, ''hhs1'', 201750, 0)]"
  by code_simp

text \<open>
  C9: the pass ends by reporting, as inserted, the row count after the pass minus the row
  count before it, and, as considered, the number of statements it issued. The difference
  is the number of (location, epiweek) keys written that the table did not hold.
\<close>

theorem row_delta_reporting:
  assumes "w' = update_quid_db env locations first last' qd_ts update_field w"
  shows "last (emitted w w') =
           Print_inserted (int (length (table w')) - int (length (table w)))
                          (length (upserts_of (emitted w w'))) \<and>
         int (length (table w')) - int (length (table w)) =
           int (card ({(loc, ew). \<exists>c v. (c, loc, ew, v) \<in> set (upserts_of (emitted w w'))}
                      - set (map row_key (table w))))"
proof -
  from update_quid_db_effect(2)[OF assms]
  obtain es where es: "trace w' =
            trace w @ [Db_execute Select_window,
                       Print_checking (fst (resolve_window env first last' (table w)))
                                      (snd (resolve_window env first last' (table w))),
                       Db_execute Select_count] @ es @
                      [Db_execute Select_count,
                       Print_inserted (int (length (table w')) - int (length (table w)))
                                      (length (pass_triples qd_ts locations))]"
    by blast
  have u: "upserts_of (emitted w w') =
     map (\<lambda>(loc, ew, v). (sql_for update_field, loc, ew, v)) (pass_triples qd_ts locations)"
    unfolding assms by (rule upserts_of_pass)
  have l: "last (emitted w w') =
     Print_inserted (int (length (table w')) - int (length (table w)))
                    (length (pass_triples qd_ts locations))"
    unfolding emitted_append[OF es] by simp
  have k: "{(loc, ew). \<exists>c v. (c, loc, ew, v) \<in> set (upserts_of (emitted w w'))} =
      triple_key ` set (pass_triples qd_ts locations)"
    unfolding u by (force simp: triple_key_def image_iff)
  have "length (table w') =
      length (table w) + card (triple_key ` set (pass_triples qd_ts locations) - set (map row_key (table w)))"
    unfolding update_quid_db_effect(1)[OF assms] by (rule length_apply_triples)
  with l u k show ?thesis by simp
qed

text \<open>Eight triples against a table that holds three of their keys: 5 inserted out of 8.\<close>

theorem row_delta_reporting_witness:
  "last (emitted \<lparr>table = example_table, trace = []\<rparr>
           (update_quid_db (example_env True) [''hhs1'', ''hhs2''] None None example_series
              ''num_rows'' \<lparr>table = example_table, trace = []\<rparr>)) =
     Print_inserted 5 8"
proof -
  let ?w = "\<lparr>table = example_table, trace = []\<rparr> :: int world"
  let ?w' = "update_quid_db (example_env True) [''hhs1'', ''hhs2''] None None example_series
               ''num_rows'' ?w"
  have a: "int (length (table ?w')) - int (length (table ?w)) = 5"
    by code_simp
  have b: "length (upserts_of (emitted ?w ?w')) = 8"
    by code_simp
  from row_delta_reporting [OF refl, of ?w "example_env True" "[''hhs1'', ''hhs2'']" None None
      example_series "''num_rows''"] a b
  show ?thesis by simp
qed

text \<open>
  C2: a pass on one column keeps the keys of the table distinct; every row that was in the
  table is still there under its key with its other two columns as they were; a row whose
  key the pass did not write is there unchanged; and a row the pass created has only the
  column of the pass written.
\<close>

theorem column_isolation:
  assumes "w' = update_quid_db env locations first last' qd_ts update_field w"
  shows "(distinct (map row_key (table w)) \<longrightarrow> distinct (map row_key (table w'))) \<and>
         (\<forall>r \<in> set (table w). \<exists>r' \<in> set (table w').
             row_key r' = row_key r \<and>
             (\<forall>c. c \<noteq> sql_for update_field \<longrightarrow> get_col c r' = get_col c r)) \<and>
         (\<forall>r \<in> set (table w).
             row_key r \<notin> {(loc, ew). \<exists>c v. (c, loc, ew, v) \<in> set (upserts_of (emitted w w'))}
             \<longrightarrow> r \<in> set (table w')) \<and>
         (\<forall>r' \<in> set (table w').
             row_key r' \<notin> set (map row_key (table w)) \<longrightarrow>
             (\<forall>c. c \<noteq> sql_for update_field \<longrightarrow> get_col c r' = None))"
proof -
  let ?c = "sql_for update_field"
  let ?ts = "pass_triples qd_ts locations"
  have tbl: "table w' = apply_triples ?c ?ts (table w)"
    by (rule update_quid_db_effect(1)[OF assms])
  have u: "upserts_of (emitted w w') = map (\<lambda>(loc, ew, v). (?c, loc, ew, v)) ?ts"
    unfolding assms by (rule upserts_of_pass)
  have k: "{(loc, ew). \<exists>c v. (c, loc, ew, v) \<in> set (upserts_of (emitted w w'))} =
      triple_key ` set ?ts"
    unfolding u by (force simp: triple_key_def image_iff)
  have 1: "distinct (map row_key (table w)) \<longrightarrow> distinct (map row_key (table w'))"
    unfolding tbl by (simp add: distinct_apply_triples)
  have 2: "\<forall>r \<in> set (table w). \<exists>r' \<in> set (table w').
             row_key r' = row_key r \<and> (\<forall>c. c \<noteq> ?c \<longrightarrow> get_col c r' = get_col c r)"
    unfolding tbl using apply_triples_row_rel row_rel_cols by blast
  have 3: "\<forall>r \<in> set (table w).
             row_key r \<notin> {(loc, ew). \<exists>c v. (c, loc, ew, v) \<in> set (upserts_of (emitted w w'))}
             \<longrightarrow> r \<in> set (table w')"
    unfolding k tbl by (simp add: apply_triples_other_key)
  have "\<forall>r \<in> set (table w). row_key r \<notin> set (map row_key (table w)) \<longrightarrow>
          (\<exists>l e x. r = new_row ?c l e x)"
    by simp
  from apply_triples_new_rows[OF this, of ?ts]
  have 4: "\<forall>r' \<in> set (table w').
             row_key r' \<notin> set (map row_key (table w)) \<longrightarrow>
             (\<forall>c. c \<noteq> ?c \<longrightarrow> get_col c r' = None)"
    unfolding tbl by (auto simp: get_col_new_row)
  from 1 2 3 4 show ?thesis by blast
qed

text \<open>
  The pass on \<open>num_rows\<close> over the example: the three rows keep \<open>value\<close> and
  \<open>num_devices\<close>, the five new rows have \<open>num_rows\<close> alone.
\<close>

theorem column_isolation_witness:
  "distinct (map row_key example_table) \<and>
   distinct (map row_key (table (update_quid_db (example_env True) [''hhs1'', ''hhs2''] None None
      example_series ''num_rows'' \<lparr>table = example_table, trace = []\<rparr>))) \<and>
   table (update_quid_db (example_env True) [''hhs1'', ''hhs2''] None None
      example_series ''num_rows'' \<lparr>table = example_table, trace = []\<rparr>) =
    [\<lparr>r_location = ''hhs1'', r_epiweek = 201701, r_value = Some 9, r_num_rows = Some 1, r_num_devices = Some 1\<rparr>,
     \<lparr>r_location = ''hhs1'', r_epiweek = 201702, r_value = Some 9, r_num_rows = Some 2, r_num_devices = Some 1\<rparr>,
     \<lparr>r_location = ''hhs1'', r_epiweek = 201703, r_value = Some 9, r_num_rows = Some 3, r_num_devices = Some 1\<rparr>,
     \<lparr>r_location = ''hhs1'', r_epiweek = 201704, r_value = None, r_num_rows = Some 4, r_num_devices = None\<rparr>,
     \<lparr>r_location = ''hhs1'', r_epiweek = 201705, r_value = None, r_num_rows = Some 0, r_num_devices = None\<rparr>,
     \<lparr>r_location = ''hhs1'', r_epiweek = 201706, r_value = None, r_num_rows = Some 6, r_num_devices = None\<rparr>,
     \<lparr>r_location = ''hhs1'', r_epiweek = 201707, r_value = None, r_num_rows = Some 7, r_num_devices = None\<rparr>,
     \<lparr>r_location = ''hhs1'', r_epiweek = 201708, r_value = None, r_num_rows = Some 8, r_num_devices = None\<rparr>]"
proof -
  let ?w = "\<lparr>table = example_table, trace = []\<rparr> :: int world"
  let ?w' = "update_quid_db (example_env True) [''hhs1'', ''hhs2''] None None example_series
               ''num_rows'' ?w"
  have d: "distinct (map row_key example_table)"
    by code_simp
  have t: "table ?w' =
    [\<lparr>r_location = ''hhs1'', r_epiweek = 201701, r_value = Some 9, r_num_rows = Some 1, r_num_devices = Some 1\<rparr>,
     \<lparr>r_location = ''hhs1'', r_epiweek = 201702, r_value = Some 9, r_num_rows = Some 2, r_num_devices = Some 1\<rparr>,
     \<lparr>r_location = ''hhs1'', r_epiweek = 201703, r_value = Some 9, r_num_rows = Some 3, r_num_devices = Some 1\<rparr>,
     \<lparr>r_location = ''hhs1'', r_epiweek = 201704, r_value = None, r_num_rows = Some 4, r_num_devices = None\<rparr>,
     \<lparr>r_location = ''hhs1'', r_epiweek = 201705, r_value = None, r_num_rows = Some 0, r_num_devices = None\<rparr>,
     \<lparr>r_location = ''hhs1'', r_epiweek = 201706, r_value = None, r_num_rows = Some 6, r_num_devices = None\<rparr>,
     \<lparr>r_location = ''hhs1'', r_epiweek = 201707, r_value = None, r_num_rows = Some 7, r_num_devices = None\<rparr>,
     \<lparr>r_location = ''hhs1'', r_epiweek = 201708, r_value = None, r_num_rows = Some 8, r_num_devices = None\<rparr>]"
    by code_simp
  from column_isolation [OF refl, of ?w "example_env True" "[''hhs1'', ''hhs2'']" None None
      example_series "''num_rows''"] d
  have "distinct (map row_key (table ?w'))" by simp
  with d t show ?thesis by simp
qed

section \<open>Runs and the window\<close>

text \<open>
  C1: a second run with the same collaborator data, overrides and locations leaves the table
  of the first run as it is, row for row and in the same order.
\<close>

theorem reconciliation_idempotent:
  "table (update env locations first last' force_update load_email
            (update env locations first last' force_update load_email w)) =
   table (update env locations first last' force_update load_email w)"
  unfolding update_table
  by (simp add: apply_upserts_idem[OF run_upserts_compatible])

text \<open>
  The run on the table whose one row is week 201750 of \<open>hhs1\<close>: the three passes fill the
  three columns of both weeks, and a second run changes nothing.
\<close>

lemma reconciliation_example:
  "table (update (example_env True) [''hhs1''] None None False True
            \<lparr>table = example_store, trace = []\<rparr>) =
     [\<lparr>r_location = ''hhs1'', r_epiweek = 201750,
       r_value = Some 0, r_num_rows = Some 4, r_num_devices = Some 0\<rparr>,
      \<lparr>r_location = ''hhs1'', r_epiweek = 201701,
       r_value = Some 2, r_num_rows = Some 10, r_num_devices = Some 5\<rparr>] \<and>
   table (update (example_env True) [''hhs1''] None None False True
            (update (example_env True) [''hhs1''] None None False True
               \<lparr>table = example_store, trace = []\<rparr>)) =
     [\<lparr>r_location = ''hhs1'', r_epiweek = 201750,
       r_value = Some 0, r_num_rows = Some 4, r_num_devices = Some 0\<rparr>,
      \<lparr>r_location = ''hhs1'', r_epiweek = 201701,
       r_value = Some 2, r_num_rows = Some 10, r_num_devices = Some 5\<rparr>]"
  by code_simp

text \<open>
  C3: every triple a run writes is asked to lie in the resolved window \<open>[ew0, ew1]\<close>. The
  series are derived with the overrides \<open>first\<close> and \<open>last\<close> as bounds (lines 73 to 77),
  not with the window of lines 92 to 96, which is printed and not used again. On a table
  whose last week is 201750, in week 201752 and without overrides, each pass reports the
  window 201746 to 201752 and writes week 201701. What does hold is
  \<open>update_writes_in_bounds\<close> (the writes lie within the overrides that are given) and
  \<open>update_never_deletes\<close>.
\<close>

theorem writes_outside_window:
  "emitted \<lparr>table = example_store, trace = []\<rparr>
     (update (example_env True) [''hhs1''] None None False True \<lparr>table = example_store, trace = []\<rparr>) =
     [QuidelData_init True, Load_csv, Db_connect,
      Db_execute Select_window, Print_checking 201746 201752, Db_execute Select_count,
      Db_execute (Upsert Col_value ''hhs1'' 201701 2),
      Db_execute (Upsert Col_value ''hhs1'' 201750 0),
      Print_missing ''hhs1'' 1 2,
      Db_execute Select_count, Print_inserted 1 2,
      Db_execute Select_window, Print_checking 201746 201752, Db_execute Select_count,
      Db_execute (Upsert Col_num_rows ''hhs1'' 201701 10),
      Db_execute (Upsert Col_num_rows ''hhs1'' 201750 4),
      Db_execute Select_count, Print_inserted 0 2,
      Db_execute Select_window, Print_checking 201746 201752, Db_execute Select_count,
      Db_execute (Upsert Col_num_devices ''hhs1'' 201701 5),
      Db_execute (Upsert Col_num_devices ''hhs1'' 201750 0),
      Print_missing ''hhs1'' 1 2,
      Db_execute Select_count, Print_inserted 0 2,
      Cursor_close, Db_commit, Db_close] \<and>
   \<not> (201746 \<le> (201701 :: int))"
  by code_simp

end
